theory Spec2Isabelle
  imports Main
begin

section \<open>Shallow embedding of chess\_moves.py\<close>

text \<open>
  The program is Python 2. Squares of the board are the tokens read from the input
  (\<open>''x''\<close> for an empty square, colour letter followed by kind letter otherwise),
  moves are the strings the program builds, and every exception the code can raise
  is a value of type \<open>error\<close>. The global \<open>board\<close> of the source is an explicit
  parameter \<open>b\<close>. The attributes of a piece keep their names (\<open>color\<close>, \<open>name\<close>,
  \<open>column\<close>, \<open>row\<close>, \<open>moves\<close>); the local variables and parameters of the same
  names are written \<open>clr\<close>, \<open>nm\<close>, \<open>c\<close>, \<open>r\<close> and \<open>mvs\<close>.
\<close>

datatype error = IndexError | KeyError

type_synonym board = "string list list"

subsection \<open>Python primitives\<close>

text \<open>\<open>xs[i]\<close> for a list or a string: a negative index counts from the end,
  anything outside \<open>[-len, len)\<close> raises IndexError.\<close>

definition getitem :: "'a list \<Rightarrow> int \<Rightarrow> error + 'a" where
  "getitem xs i =
     (if 0 \<le> i \<and> i < int (length xs) then Inr (xs ! nat i)
      else if i < 0 \<and> - int (length xs) \<le> i then Inr (xs ! nat (int (length xs) + i))
      else Inl IndexError)"

text \<open>\<open>d[k]\<close> for a dictionary given as an association list: a missing key raises KeyError.\<close>

definition dict_get :: "('k \<times> 'v) list \<Rightarrow> 'k \<Rightarrow> error + 'v" where
  "dict_get d k = (case map_of d k of None \<Rightarrow> Inl KeyError | Some v \<Rightarrow> Inr v)"

text \<open>\<open>sub in s\<close> for strings: \<open>sub\<close> occurs in \<open>s\<close> as a contiguous substring.\<close>

fun str_in :: "string \<Rightarrow> string \<Rightarrow> bool" where
  "str_in sub [] = (sub = [])"
| "str_in sub (ch # s) = (take (length sub) (ch # s) = sub \<or> str_in sub s)"

text \<open>\<open>x in range(8)\<close>: in Python 2 \<open>range(8)\<close> is the list \<open>[0, ..., 7]\<close>.\<close>

definition in_range8 :: "int \<Rightarrow> bool" where
  "in_range8 x = (0 \<le> x \<and> x < 8)"

text \<open>\<open>str.title()\<close> on ASCII: the first cased character of every run of letters is
  upper-cased, the following ones are lower-cased.\<close>

definition lower_letters :: string where
  "lower_letters = ''abcdefghijklmnopqrstuvwxyz''"

definition upper_letters :: string where
  "upper_letters = ''ABCDEFGHIJKLMNOPQRSTUVWXYZ''"

definition to_upper :: "char \<Rightarrow> char" where
  "to_upper ch = (case map_of (zip lower_letters upper_letters) ch of Some u \<Rightarrow> u | None \<Rightarrow> ch)"

definition to_lower :: "char \<Rightarrow> char" where
  "to_lower ch = (case map_of (zip upper_letters lower_letters) ch of Some l \<Rightarrow> l | None \<Rightarrow> ch)"

fun title_from :: "bool \<Rightarrow> string \<Rightarrow> string" where
  "title_from previous_is_cased [] = []"
| "title_from previous_is_cased (ch # s) =
     (if ch \<in> set lower_letters
        then (if previous_is_cased then ch else to_upper ch) # title_from True s
      else if ch \<in> set upper_letters
        then (if previous_is_cased then to_lower ch else ch) # title_from True s
      else ch # title_from False s)"

definition title :: "string \<Rightarrow> string" where
  "title s = title_from False s"

subsection \<open>The Piece class: attributes\<close>

record piece =
  color :: string
  name :: string
  column :: int
  row :: int
  moves :: "string list"

text \<open>The class attributes \<open>Piece.piece_names\<close> and \<open>Piece.piece_colors\<close>.\<close>

definition piece_names :: "(char \<times> string) list" where
  "piece_names = [(CHR ''p'', ''pawn''), (CHR ''r'', ''rook''), (CHR ''n'', ''knight''),
                  (CHR ''b'', ''bishop''), (CHR ''q'', ''queen''), (CHR ''k'', ''king'')]"

definition piece_colors :: "(string \<times> string) list" where
  "piece_colors = [(''w'', ''white''), (''b'', ''black'')]"

subsection \<open>readable\_position and space\_check\<close>

definition readable_position :: "int \<Rightarrow> int \<Rightarrow> error + string" where
  "readable_position c r =
     (case getitem ''abcdefgh'' c of Inl e \<Rightarrow> Inl e
      | Inr column_letter \<Rightarrow>
     (case getitem ''87654321'' r of Inl e \<Rightarrow> Inl e
      | Inr row_digit \<Rightarrow> Inr [column_letter, row_digit]))"

text \<open>The expression \<open>board[row][column]\<close> on the first line of \<open>space_check\<close>: the one
  place where the board is dereferenced by a computed coordinate.\<close>

definition board_lookup :: "board \<Rightarrow> int \<Rightarrow> int \<Rightarrow> error + string" where
  "board_lookup b c r =
     (case getitem b r of Inl e \<Rightarrow> Inl e | Inr board_row \<Rightarrow> getitem board_row c)"

text \<open>\<open>space_check(moves, color, column, row)\<close> returns the pair \<open>(moves, stop)\<close>.
  The parameter \<open>clr\<close> is the mover's \<open>piece.color\<close>, that is \<open>''white''\<close> or
  \<open>''black''\<close>; the occupant is compared with its first letter.\<close>

definition space_check ::
  "board \<Rightarrow> string list \<Rightarrow> string \<Rightarrow> int \<Rightarrow> int \<Rightarrow> error + (string list \<times> bool)" where
  "space_check b mvs clr c r =
     (case board_lookup b c r of Inl e \<Rightarrow> Inl e
      | Inr occupant \<Rightarrow>
     (case getitem occupant 0 of Inl e \<Rightarrow> Inl e
      | Inr occupant0 \<Rightarrow>
        if occupant0 = CHR ''x'' then
          (case readable_position c r of Inl e \<Rightarrow> Inl e
           | Inr position \<Rightarrow> Inr (mvs @ [position], False))
        else
          (case getitem clr 0 of Inl e \<Rightarrow> Inl e
           | Inr color0 \<Rightarrow>
             if occupant0 \<noteq> color0 then
               (case getitem occupant 1 of Inl e \<Rightarrow> Inl e
                | Inr occupant1 \<Rightarrow>
               (case dict_get piece_names occupant1 of Inl e \<Rightarrow> Inl e
                | Inr nm \<Rightarrow>
               (case readable_position c r of Inl e \<Rightarrow> Inl e
                | Inr position \<Rightarrow>
                    Inr (mvs @ [position @ '' (Capture '' @ title nm @ '')''], True))))
             else Inr (mvs, True))))"

subsection \<open>walk\<close>

text \<open>The \<open>while\<close> loop of \<open>walk\<close>, over its local variables \<open>column\<close>, \<open>row\<close>,
  \<open>max_distance\<close>, \<open>moves\<close> and \<open>stop\<close>; \<open>break\<close> and falling out of the loop both
  return \<open>moves\<close>.\<close>

function walk_loop ::
  "board \<Rightarrow> string \<Rightarrow> int \<Rightarrow> int \<Rightarrow> int \<Rightarrow> int \<Rightarrow> int \<Rightarrow> string list \<Rightarrow> bool
     \<Rightarrow> error + string list" where
  "walk_loop b clr column_step row_step c r max_distance mvs stop =
     (if in_range8 c \<and> in_range8 r \<and> max_distance > 0 then
        (if \<not> in_range8 (c + column_step) \<or> \<not> in_range8 (r + row_step) \<or> stop then Inr mvs
         else
           (case space_check b mvs clr (c + column_step) (r + row_step) of
              Inl e \<Rightarrow> Inl e
            | Inr (mvs', stop') \<Rightarrow>
                walk_loop b clr column_step row_step (c + column_step) (r + row_step)
                  (max_distance + (-1)) mvs' stop'))
      else Inr mvs)"
  by pat_completeness auto
termination
  by (relation "measure (\<lambda>(b, clr, column_step, row_step, c, r, max_distance, mvs, stop).
        nat max_distance)") auto

declare walk_loop.simps [simp del]

definition walk :: "board \<Rightarrow> piece \<Rightarrow> int \<times> int \<Rightarrow> int \<Rightarrow> error + string list" where
  "walk b p steps max_distance =
     walk_loop b (color p) (fst steps) (snd steps) (column p) (row p) max_distance [] False"

subsection \<open>knight\_moves, pawn\_moves, find\_moves\<close>

definition knight_options :: "(int \<times> int) list" where
  "knight_options = [(-1, -2), (1, -2),
                     (2, -1), (2, 1),
                     (1, 2), (-1, 2),
                     (-2, -1), (-2, -1)]"

text \<open>The loop of \<open>knight_moves\<close>: \<open>for path in knight_options: moves += walk(piece, path, 1)\<close>.\<close>

fun knight_moves_loop ::
  "board \<Rightarrow> piece \<Rightarrow> string list \<Rightarrow> (int \<times> int) list \<Rightarrow> error + string list" where
  "knight_moves_loop b p mvs [] = Inr mvs"
| "knight_moves_loop b p mvs (path # paths) =
     (case walk b p path 1 of Inl e \<Rightarrow> Inl e
      | Inr found \<Rightarrow> knight_moves_loop b p (mvs @ found) paths)"

definition knight_moves :: "board \<Rightarrow> piece \<Rightarrow> error + string list" where
  "knight_moves b p = knight_moves_loop b p [] knight_options"

text \<open>The second loop of \<open>pawn_moves\<close>:
  \<open>for path in capture_paths: moves += [move for move in walk(piece, path, 1) if 'Capture' in move]\<close>.\<close>

fun pawn_capture_loop ::
  "board \<Rightarrow> piece \<Rightarrow> string list \<Rightarrow> (int \<times> int) list \<Rightarrow> error + string list" where
  "pawn_capture_loop b p mvs [] = Inr mvs"
| "pawn_capture_loop b p mvs (path # capture_paths) =
     (case walk b p path 1 of Inl e \<Rightarrow> Inl e
      | Inr found \<Rightarrow>
          pawn_capture_loop b p (mvs @ [move \<leftarrow> found. str_in ''Capture'' move]) capture_paths)"

text \<open>\<open>pawn_moves\<close>. The last loop replaces, in place, every element of \<open>moves\<close> that
  contains the promotion row's digit; \<open>enumerate\<close> reads each index once, so it is a map.\<close>

definition pawn_moves :: "board \<Rightarrow> piece \<Rightarrow> error + string list" where
  "pawn_moves b p =
     (let (basic_path, capture_paths, promotion_row, max_distance) =
            (if color p = ''white''
             then ((0, -1), [(1, -1), (-1, -1)], ''8'', if row p = 6 then 2 else 1)
             else ((0, 1), [(1, 1), (-1, 1)], ''1'', if row p = 1 then 2 else 1))
      in
        (case walk b p basic_path max_distance of Inl e \<Rightarrow> Inl e
         | Inr forward \<Rightarrow>
        (case pawn_capture_loop b p [move \<leftarrow> forward. \<not> str_in ''Capture'' move]
                capture_paths of
           Inl e \<Rightarrow> Inl e
         | Inr mvs \<Rightarrow>
             Inr (map (\<lambda>space. if str_in promotion_row space
                                then ''Promote on '' @ space else space) mvs))))"

definition cross_moves :: "string list" where
  "cross_moves = [''U'', ''R'', ''D'', ''L'']"

definition diagonal_moves :: "string list" where
  "diagonal_moves = [''UR'', ''DR'', ''DL'', ''UL'']"

definition move_changes :: "(string \<times> (int \<times> int)) list" where
  "move_changes = [(''U'', (0, -1)), (''R'', (1, 0)), (''D'', (0, 1)), (''L'', (-1, 0)),
                   (''UR'', (1, -1)), (''DR'', (1, 1)), (''DL'', (-1, 1)), (''UL'', (-1, -1))]"

definition move_options :: "(string \<times> (string list \<times> int)) list" where
  "move_options = [(''rook'', (cross_moves, 7)),
                   (''bishop'', (diagonal_moves, 7)),
                   (''queen'', (cross_moves @ diagonal_moves, 7)),
                   (''king'', (cross_moves @ diagonal_moves, 1))]"

text \<open>\<open>for path in available_paths: moves += walk(piece, move_changes[path], max_distance)\<close>\<close>

fun walk_paths ::
  "board \<Rightarrow> piece \<Rightarrow> int \<Rightarrow> string list \<Rightarrow> string list \<Rightarrow> error + string list" where
  "walk_paths b p max_distance mvs [] = Inr mvs"
| "walk_paths b p max_distance mvs (path # available_paths) =
     (case dict_get move_changes path of Inl e \<Rightarrow> Inl e
      | Inr steps \<Rightarrow>
     (case walk b p steps max_distance of Inl e \<Rightarrow> Inl e
      | Inr found \<Rightarrow> walk_paths b p max_distance (mvs @ found) available_paths))"

definition find_moves :: "board \<Rightarrow> piece \<Rightarrow> error + string list" where
  "find_moves b p =
     (case map_of move_options (name p) of
        Some (available_paths, max_distance) \<Rightarrow> walk_paths b p max_distance [] available_paths
      | None \<Rightarrow> if name p = ''pawn'' then pawn_moves b p else knight_moves b p)"

subsection \<open>Piece construction and find\_pieces\<close>

text \<open>\<open>Piece.__init__\<close>: the attribute \<open>moves\<close> does not exist yet while \<open>find_moves\<close>
  runs (and \<open>find_moves\<close> never reads it); it is \<open>[]\<close> in the record until it is assigned.\<close>

definition Piece :: "board \<Rightarrow> string \<Rightarrow> char \<Rightarrow> int \<Rightarrow> int \<Rightarrow> error + piece" where
  "Piece b clr nm c r =
     (case dict_get piece_colors clr of Inl e \<Rightarrow> Inl e
      | Inr self_color \<Rightarrow>
     (case dict_get piece_names nm of Inl e \<Rightarrow> Inl e
      | Inr self_name \<Rightarrow>
     (let self = \<lparr>color = self_color, name = self_name, column = c, row = r, moves = []\<rparr>
      in (case find_moves b self of Inl e \<Rightarrow> Inl e
          | Inr found \<Rightarrow> Inr (self\<lparr>moves := found\<rparr>)))))"

text \<open>The inner loop of \<open>find_pieces\<close>, \<open>for column_index in range(8)\<close>, over one row.\<close>

fun find_pieces_row ::
  "board \<Rightarrow> string \<Rightarrow> int \<Rightarrow> string list \<Rightarrow> piece list \<Rightarrow> int list \<Rightarrow> error + piece list" where
  "find_pieces_row b clr row_index board_row player_pieces [] = Inr player_pieces"
| "find_pieces_row b clr row_index board_row player_pieces (column_index # columns) =
     (case getitem board_row column_index of Inl e \<Rightarrow> Inl e
      | Inr token \<Rightarrow>
     (case getitem token 0 of Inl e \<Rightarrow> Inl e
      | Inr token0 \<Rightarrow>
        if [token0] = clr then
          (case getitem token 1 of Inl e \<Rightarrow> Inl e
           | Inr token1 \<Rightarrow>
          (case Piece b clr token1 column_index row_index of Inl e \<Rightarrow> Inl e
           | Inr new_piece \<Rightarrow>
               find_pieces_row b clr row_index board_row (player_pieces @ [new_piece]) columns))
        else find_pieces_row b clr row_index board_row player_pieces columns))"

text \<open>The outer loop, \<open>for row_index in order\<close>.\<close>

fun find_pieces_rows ::
  "board \<Rightarrow> string \<Rightarrow> piece list \<Rightarrow> int list \<Rightarrow> error + piece list" where
  "find_pieces_rows b clr player_pieces [] = Inr player_pieces"
| "find_pieces_rows b clr player_pieces (row_index # order) =
     (case getitem b row_index of Inl e \<Rightarrow> Inl e
      | Inr board_row \<Rightarrow>
     (case find_pieces_row b clr row_index board_row player_pieces [0..7] of Inl e \<Rightarrow> Inl e
      | Inr player_pieces' \<Rightarrow> find_pieces_rows b clr player_pieces' order))"

definition find_pieces :: "board \<Rightarrow> string \<Rightarrow> error + piece list" where
  "find_pieces b clr =
     find_pieces_rows b clr [] (if clr = ''b'' then rev [0..7] else [0..7])"


section \<open>Vocabulary of the specification\<close>

text \<open>A validated board (what the board parser hands over): eight rows of eight tokens,
  each token either \<open>''x''\<close> or a colour letter followed by a kind letter.\<close>

definition valid_token :: "string \<Rightarrow> bool" where
  "valid_token t = (t = ''x'' \<or>
     (length t = 2 \<and> t ! 0 \<in> set ''wb'' \<and> t ! 1 \<in> set ''prnbqk''))"

definition valid_board :: "board \<Rightarrow> bool" where
  "valid_board b = (length b = 8 \<and>
     list_all (\<lambda>board_row. length board_row = 8 \<and> list_all valid_token board_row) b)"

text \<open>A piece as the move rules receive it: its colour is one of the two values of
  \<open>piece_colors\<close> and its square is on the board.\<close>

definition valid_mover :: "piece \<Rightarrow> bool" where
  "valid_mover p = ((color p = ''white'' \<or> color p = ''black'') \<and>
     in_range8 (column p) \<and> in_range8 (row p))"

text \<open>The token of a square, the text of a square, and the text of a capture there:
  the values \<open>board_lookup\<close>, \<open>readable_position\<close> and \<open>space_check\<close> compute when
  they do not raise.\<close>

definition token_at :: "board \<Rightarrow> int \<Rightarrow> int \<Rightarrow> string" where
  "token_at b c r = (case board_lookup b c r of Inr t \<Rightarrow> t | Inl e \<Rightarrow> [])"

definition square_name :: "int \<Rightarrow> int \<Rightarrow> string" where
  "square_name c r = (case readable_position c r of Inr s \<Rightarrow> s | Inl e \<Rightarrow> [])"

definition kind_title :: "string \<Rightarrow> string" where
  "kind_title t = (case map_of piece_names (t ! 1) of Some nm \<Rightarrow> title nm | None \<Rightarrow> [])"

definition capture_text :: "board \<Rightarrow> int \<Rightarrow> int \<Rightarrow> string" where
  "capture_text b c r = square_name c r @ '' (Capture '' @ kind_title (token_at b c r) @ '')''"

text \<open>An on-board square is empty, or holds a piece of the other colour than \<open>clr\<close>
  (the mover's \<open>''white''\<close> or \<open>''black''\<close>; tokens and colours are compared by their
  first letter, as \<open>space_check\<close> does).\<close>

definition is_empty :: "board \<Rightarrow> int \<Rightarrow> int \<Rightarrow> bool" where
  "is_empty b c r = (in_range8 c \<and> in_range8 r \<and> token_at b c r = ''x'')"

definition is_opponent :: "board \<Rightarrow> string \<Rightarrow> int \<Rightarrow> int \<Rightarrow> bool" where
  "is_opponent b clr c r = (in_range8 c \<and> in_range8 r \<and> token_at b c r \<noteq> ''x'' \<and>
     hd (token_at b c r) \<noteq> hd clr)"

text \<open>The Ray Walker as the specification words it (section 4.2): from a square, add the
  direction; stop when the coordinate leaves the board, when the steps are used up, or at
  an occupied square; an empty square gives a non-capturing move and the walk goes on, a
  square of the opposing colour gives a capturing move, one of the same colour gives none.\<close>

fun ray :: "board \<Rightarrow> string \<Rightarrow> int \<times> int \<Rightarrow> nat \<Rightarrow> int \<Rightarrow> int \<Rightarrow> string list" where
  "ray b clr direction 0 c r = []"
| "ray b clr direction (Suc steps_left) c r =
     (let c' = c + fst direction; r' = r + snd direction in
      if \<not> (in_range8 c' \<and> in_range8 r') then []
      else if is_empty b c' r' then square_name c' r' # ray b clr direction steps_left c' r'
      else if is_opponent b clr c' r' then [capture_text b c' r']
      else [])"

text \<open>What the Ray Walker may emit for a mover of colour \<open>clr\<close> at a square: the
  plain text of an empty square, or the capture text of a square held by the opponent.\<close>

definition ray_move :: "board \<Rightarrow> string \<Rightarrow> string \<Rightarrow> int \<Rightarrow> int \<Rightarrow> bool" where
  "ray_move b clr m tc tr =
     ((is_empty b tc tr \<and> m = square_name tc tr) \<or>
      (is_opponent b clr tc tr \<and> m = capture_text b tc tr))"

text \<open>Reading a move text back: a pawn move may carry the prefix \<open>''Promote on ''\<close>
  (11 characters); what follows starts with the two characters of the target square.
  \<open>targets m tc tr\<close>: the move text \<open>m\<close> names the on-board square \<open>(tc, tr)\<close>.\<close>

definition flagged :: "string \<Rightarrow> bool" where
  "flagged m = (take 11 m = ''Promote on '')"

definition move_body :: "string \<Rightarrow> string" where
  "move_body m = (if flagged m then drop 11 m else m)"

definition targets :: "string \<Rightarrow> int \<Rightarrow> int \<Rightarrow> bool" where
  "targets m tc tr = (in_range8 tc \<and> in_range8 tr \<and> take 2 (move_body m) = square_name tc tr)"


text \<open>The pawn's constants by colour (section 4.4): White advances toward row 0 from
  its starting row 6 and promotes on row 0, Black advances toward row 7 from row 1 and
  promotes on row 7.\<close>

definition forward_dir :: "string \<Rightarrow> int" where
  "forward_dir clr = (if clr = ''white'' then -1 else 1)"

definition start_row :: "string \<Rightarrow> int" where
  "start_row clr = (if clr = ''white'' then 6 else 1)"

definition promotion_row :: "string \<Rightarrow> int" where
  "promotion_row clr = (if clr = ''white'' then 0 else 7)"

text \<open>The pawn rule as the specification words it (section 4.4): one step forward onto
  an empty square, a second one from the starting row if that square is empty too; one
  step on either forward diagonal only onto a square held by the opponent; a move whose
  text shows the promotion row's digit is flagged.\<close>

definition pawn_forward :: "board \<Rightarrow> piece \<Rightarrow> string list" where
  "pawn_forward b p =
     (let f = forward_dir (color p) in
      if is_empty b (column p) (row p + f)
      then square_name (column p) (row p + f) #
           (if row p = start_row (color p) \<and> is_empty b (column p) (row p + 2 * f)
            then [square_name (column p) (row p + 2 * f)] else [])
      else [])"

definition pawn_capture :: "board \<Rightarrow> piece \<Rightarrow> int \<Rightarrow> string list" where
  "pawn_capture b p d =
     (let f = forward_dir (color p) in
      if is_opponent b (color p) (column p + d) (row p + f)
      then [capture_text b (column p + d) (row p + f)] else [])"

definition promote :: "string \<Rightarrow> string \<Rightarrow> string" where
  "promote clr space =
     (if str_in (if clr = ''white'' then ''8'' else ''1'') space
      then ''Promote on '' @ space else space)"

text \<open>The eight canonical knight offsets of the specification (section 4.3), and the
  classic mobility table they give on an empty board: the number of offsets that stay on
  the board.\<close>

definition canonical_knight_offsets :: "(int \<times> int) list" where
  "canonical_knight_offsets =
     [(-1, -2), (1, -2), (2, -1), (2, 1), (1, 2), (-1, 2), (-2, -1), (-2, 1)]"

definition knight_mobility :: "int \<Rightarrow> int \<Rightarrow> nat" where
  "knight_mobility c r =
     length [d \<leftarrow> canonical_knight_offsets. in_range8 (c + fst d) \<and> in_range8 (r + snd d)]"

text \<open>\<open>owned b clr c r\<close>: the square holds a piece whose colour letter is \<open>clr\<close>
  (\<open>''w''\<close> or \<open>''b''\<close>, as typed by the player).\<close>

definition owned :: "board \<Rightarrow> string \<Rightarrow> int \<Rightarrow> int \<Rightarrow> bool" where
  "owned b clr c r = (take 1 (token_at b c r) = clr)"

text \<open>\<open>collected b clr p\<close>: the piece record \<open>p\<close> is what \<open>Piece\<close> builds for the
  occupant of its square: colour and name looked up in the two tables, and \<open>moves\<close> the
  result of \<open>find_moves\<close>.\<close>

definition collected :: "board \<Rightarrow> string \<Rightarrow> piece \<Rightarrow> bool" where
  "collected b clr p =
     (dict_get piece_colors clr = Inr (color p) \<and>
      dict_get piece_names (token_at b (column p) (row p) ! 1) = Inr (name p) \<and>
      find_moves b p = Inr (moves p))"

section \<open>Example positions\<close>

text \<open>The sample input of the program's docstring.\<close>

definition sample_board :: board where
  "sample_board =
    [[''br'', ''bn'', ''bb'', ''bq'', ''bk'', ''bb'', ''bn'', ''br''],
     [''bp'', ''bp'', ''bp'', ''bp'', ''bp'', ''bp'', ''bp'', ''x''],
     [''x'', ''x'', ''x'', ''x'', ''x'', ''x'', ''x'', ''x''],
     [''x'', ''x'', ''x'', ''x'', ''x'', ''x'', ''x'', ''x''],
     [''x'', ''x'', ''x'', ''x'', ''x'', ''x'', ''x'', ''x''],
     [''x'', ''x'', ''x'', ''x'', ''x'', ''x'', ''x'', ''x''],
     [''wp'', ''wp'', ''wp'', ''wp'', ''wp'', ''wp'', ''wp'', ''wp''],
     [''wr'', ''wn'', ''wb'', ''wq'', ''wk'', ''wb'', ''wn'', ''wr'']]"

definition empty_row :: "string list" where
  "empty_row = [''x'', ''x'', ''x'', ''x'', ''x'', ''x'', ''x'', ''x'']"

text \<open>Scenario 3 of the specification: a white rook on a8 (column 0, row 0), a black
  pawn on a3 (column 0, row 5), nothing else.\<close>

definition rook_board :: board where
  "rook_board =
    [[''wr'', ''x'', ''x'', ''x'', ''x'', ''x'', ''x'', ''x''],
     empty_row, empty_row, empty_row, empty_row,
     [''bp'', ''x'', ''x'', ''x'', ''x'', ''x'', ''x'', ''x''],
     empty_row, empty_row]"

definition rook_a8 :: piece where
  "rook_a8 = \<lparr>color = ''white'', name = ''rook'', column = 0, row = 0, moves = []\<rparr>"

text \<open>A white knight alone on c6 (column 2, row 2), and alone on c1 (column 2, row 7).\<close>

definition knight_c6_board :: board where
  "knight_c6_board =
    [empty_row, empty_row,
     [''x'', ''x'', ''wn'', ''x'', ''x'', ''x'', ''x'', ''x''],
     empty_row, empty_row, empty_row, empty_row, empty_row]"

definition knight_c6 :: piece where
  "knight_c6 = \<lparr>color = ''white'', name = ''knight'', column = 2, row = 2, moves = []\<rparr>"

definition knight_c1_board :: board where
  "knight_c1_board =
    [empty_row, empty_row, empty_row, empty_row, empty_row, empty_row, empty_row,
     [''x'', ''x'', ''wn'', ''x'', ''x'', ''x'', ''x'', ''x'']]"

definition knight_c1 :: piece where
  "knight_c1 = \<lparr>color = ''white'', name = ''knight'', column = 2, row = 7, moves = []\<rparr>"

text \<open>A white pawn on d2 (column 3, row 6) with a black knight on c3; a white pawn on
  b7 (column 1, row 1) with a black rook on a8.\<close>

definition pawn_board :: board where
  "pawn_board =
    [empty_row, empty_row, empty_row, empty_row, empty_row,
     [''x'', ''x'', ''bn'', ''x'', ''x'', ''x'', ''x'', ''x''],
     [''x'', ''x'', ''x'', ''wp'', ''x'', ''x'', ''x'', ''x''],
     empty_row]"

definition pawn_d2 :: piece where
  "pawn_d2 = \<lparr>color = ''white'', name = ''pawn'', column = 3, row = 6, moves = []\<rparr>"

definition promotion_board :: board where
  "promotion_board =
    [[''br'', ''x'', ''x'', ''x'', ''x'', ''x'', ''x'', ''x''],
     [''x'', ''wp'', ''x'', ''x'', ''x'', ''x'', ''x'', ''x''],
     empty_row, empty_row, empty_row, empty_row, empty_row, empty_row]"

definition pawn_b7 :: piece where
  "pawn_b7 = \<lparr>color = ''white'', name = ''pawn'', column = 1, row = 1, moves = []\<rparr>"

section \<open>Auxiliary lemmas\<close>

subsection \<open>Lookups on a validated board\<close>

lemma getitem_in_range: "0 \<le> i \<Longrightarrow> i < int (length xs) \<Longrightarrow> getitem xs i = Inr (xs ! nat i)"
  by (simp add: getitem_def)

lemma readable_position_in_range:
  assumes "in_range8 c" "in_range8 r"
  shows "readable_position c r = Inr [''abcdefgh'' ! nat c, ''87654321'' ! nat r]"
  using assms by (simp add: readable_position_def getitem_in_range in_range8_def)

lemma square_name_in_range:
  "in_range8 c \<Longrightarrow> in_range8 r \<Longrightarrow> square_name c r = [''abcdefgh'' ! nat c, ''87654321'' ! nat r]"
  by (simp add: square_name_def readable_position_in_range)

lemma board_lookup_valid:
  assumes "valid_board b" "in_range8 c" "in_range8 r"
  shows "board_lookup b c r = Inr (token_at b c r)" and "valid_token (token_at b c r)"
proof -
  from assms have len: "length b = 8" and r: "nat r < length b"
    by (auto simp: valid_board_def in_range8_def)
  from assms r have row: "length (b ! nat r) = 8" "list_all valid_token (b ! nat r)"
    by (auto simp: valid_board_def list_all_length)
  from assms len have g1: "getitem b r = Inr (b ! nat r)"
    by (simp add: getitem_in_range in_range8_def)
  from assms row have g2: "getitem (b ! nat r) c = Inr (b ! nat r ! nat c)"
    by (simp add: getitem_in_range in_range8_def)
  from g1 g2 show lk: "board_lookup b c r = Inr (token_at b c r)"
    by (simp add: board_lookup_def token_at_def)
  from g1 g2 have "token_at b c r = b ! nat r ! nat c"
    by (simp add: board_lookup_def token_at_def)
  moreover from assms row have "valid_token (b ! nat r ! nat c)"
    by (auto simp: list_all_length in_range8_def)
  ultimately show "valid_token (token_at b c r)" by simp
qed

lemma title_names:
  "title ''pawn'' = ''Pawn''" "title ''rook'' = ''Rook''" "title ''knight'' = ''Knight''"
  "title ''bishop'' = ''Bishop''" "title ''queen'' = ''Queen''" "title ''king'' = ''King''"
  by (simp_all add: title_def lower_letters_def upper_letters_def to_upper_def)

lemma valid_token_cases:
  assumes "valid_token t"
  obtains (empty) "t = ''x''"
  | (occupied) cl k where "t = [cl, k]" "cl = CHR ''w'' \<or> cl = CHR ''b''" "k \<in> set ''prnbqk''"
proof -
  { assume "t \<noteq> ''x''"
    with assms have l: "length t = 2" and a: "t ! 0 \<in> set ''wb''"  and b: "t ! 1 \<in> set ''prnbqk''"
      by (auto simp: valid_token_def)
    from l obtain cl k where t: "t = [cl, k]"
      by (cases t; cases "tl t") auto
    with a b have "cl = CHR ''w'' \<or> cl = CHR ''b''" "k \<in> set ''prnbqk''" by auto
    with t have thesis using occupied by blast }
  then show thesis using empty by blast
qed

lemma kind_title_valid:
  assumes "k \<in> set ''prnbqk''"
  shows "kind_title [cl, k] \<in> {''Pawn'', ''Rook'', ''Knight'', ''Bishop'', ''Queen'', ''King''}"
  using assms by (auto simp: piece_names_def kind_title_def title_names)

lemma kind_title_dict:
  assumes "k \<in> set ''prnbqk''"
  shows "\<exists>nm. dict_get piece_names k = Inr nm \<and> title nm = kind_title [cl, k]"
  using assms by (auto simp: dict_get_def piece_names_def kind_title_def)

lemma space_check_on_board:
  assumes "valid_board b" "in_range8 c" "in_range8 r" "clr = ''white'' \<or> clr = ''black''"
  shows "space_check b mvs clr c r =
           Inr (if is_empty b c r then (mvs @ [square_name c r], False)
                else if is_opponent b clr c r then (mvs @ [capture_text b c r], True)
                else (mvs, True))"
proof -
  note lk = board_lookup_valid [OF assms(1-3)]
  note rp = readable_position_in_range [OF assms(2,3)] square_name_in_range [OF assms(2,3)]
  from assms(4) have c0: "getitem clr 0 = Inr (hd clr)" by (auto simp: getitem_def)
  from lk(2) show ?thesis
  proof (cases rule: valid_token_cases)
    case empty
    with lk(1) rp assms(2,3) show ?thesis by (simp add: space_check_def getitem_def is_empty_def)
  next
    case (occupied cl k)
    from kind_title_dict [OF occupied(3), of cl] obtain nm
      where nm: "dict_get piece_names k = Inr nm" "title nm = kind_title [cl, k]" by blast
    from occupied have g: "getitem (token_at b c r) 0 = Inr cl" "getitem (token_at b c r) 1 = Inr k"
      "cl \<noteq> CHR ''x''" "token_at b c r \<noteq> ''x''" "hd (token_at b c r) = cl"
      by (auto simp: getitem_def)
    show ?thesis
      using lk(1) rp c0 g nm occupied(1) assms(2,3)
      by (simp add: space_check_def capture_text_def is_empty_def is_opponent_def)
  qed
qed

subsection \<open>The loop of walk computes the ray\<close>

lemma walk_loop_stopped:
  "walk_loop b clr dc dr c r max_distance mvs True = Inr mvs"
  by (subst walk_loop.simps) simp

lemma walk_loop_ray:
  assumes "valid_board b" "clr = ''white'' \<or> clr = ''black''"
  shows "in_range8 c \<Longrightarrow> in_range8 r \<Longrightarrow> nat max_distance = n \<Longrightarrow>
         walk_loop b clr dc dr c r max_distance mvs False = Inr (mvs @ ray b clr (dc, dr) n c r)"
proof (induction n arbitrary: c r max_distance mvs)
  case 0
  then have "\<not> max_distance > 0" by simp
  then show ?case by (subst walk_loop.simps) simp
next
  case (Suc n)
  then have pos: "max_distance > 0" and n: "nat (max_distance - 1) = n" by simp_all
  show ?case
  proof (cases "in_range8 (c + dc) \<and> in_range8 (r + dr)")
    case False
    with Suc.prems pos show ?thesis by (subst walk_loop.simps) auto
  next
    case True
    then have c': "in_range8 (c + dc)" and r': "in_range8 (r + dr)" by simp_all
    note sc = space_check_on_board [OF assms(1) c' r' assms(2), of mvs]
    note IH = Suc.IH [OF c' r' n]
    show ?thesis
      using Suc.prems(1,2) pos True
      by (subst walk_loop.simps) (simp add: sc IH walk_loop_stopped Let_def)
  qed
qed

lemma walk_ray:
  assumes "valid_board b" "valid_mover p"
  shows "walk b p direction max_distance =
           Inr (ray b (color p) direction (nat max_distance) (column p) (row p))"
  using assms walk_loop_ray [of b "color p" "column p" "row p" max_distance "nat max_distance"
      "fst direction" "snd direction" "[]"]
  by (simp add: walk_def valid_mover_def)

subsection \<open>Move texts\<close>

lemma nat_index8: "in_range8 x \<Longrightarrow> length (xs::string) = 8 \<Longrightarrow> nat x < length xs"
  unfolding in_range8_def by arith

lemma column_letter_mem: "in_range8 c \<Longrightarrow> ''abcdefgh'' ! nat c \<in> set ''abcdefgh''"
  by (rule nth_mem, rule nat_index8) simp_all

lemma row_digit_mem: "in_range8 r \<Longrightarrow> ''87654321'' ! nat r \<in> set ''87654321''"
  by (rule nth_mem, rule nat_index8) simp_all

lemma column_letter_inj:
  assumes "in_range8 c" "in_range8 c'" "''abcdefgh'' ! nat c = ''abcdefgh'' ! nat c'"
  shows "c = c'"
proof -
  have "nat c < length ''abcdefgh''" "nat c' < length ''abcdefgh''"
    by (rule nat_index8 [OF assms(1)], simp, rule nat_index8 [OF assms(2)], simp)
  moreover have "distinct ''abcdefgh''" by simp
  ultimately have "nat c = nat c'"
    using assms(3) by (simp only: nth_eq_iff_index_eq)
  with assms(1,2) show ?thesis unfolding in_range8_def by arith
qed

lemma row_digit_inj:
  assumes "in_range8 r" "in_range8 r'" "''87654321'' ! nat r = ''87654321'' ! nat r'"
  shows "r = r'"
proof -
  have "nat r < length ''87654321''" "nat r' < length ''87654321''"
    by (rule nat_index8 [OF assms(1)], simp, rule nat_index8 [OF assms(2)], simp)
  moreover have "distinct ''87654321''" by simp
  ultimately have "nat r = nat r'"
    using assms(3) by (simp only: nth_eq_iff_index_eq)
  with assms(1,2) show ?thesis unfolding in_range8_def by arith
qed

lemma square_name_inj:
  assumes "in_range8 c" "in_range8 r" "in_range8 c'" "in_range8 r'"
    and "square_name c r = square_name c' r'"
  shows "c = c' \<and> r = r'"
  using assms by (auto simp: square_name_in_range dest: column_letter_inj row_digit_inj)

lemma not_flagged_square:
  assumes "in_range8 c" "in_range8 r"
  shows "\<not> flagged (square_name c r @ s)"
proof
  assume "flagged (square_name c r @ s)"
  then have "''abcdefgh'' ! nat c = CHR ''P''"
    using assms by (simp add: flagged_def square_name_in_range)
  with column_letter_mem [OF assms(1)] show False by simp
qed

lemma move_body_plain:
  "in_range8 c \<Longrightarrow> in_range8 r \<Longrightarrow> move_body (square_name c r @ s) = square_name c r @ s"
  by (simp add: move_body_def not_flagged_square)

lemma move_body_promoted: "move_body (''Promote on '' @ x) = x"
  by (simp add: move_body_def flagged_def)

lemma flagged_promoted: "flagged (''Promote on '' @ x)"
  by (simp add: flagged_def)

lemma targets_text:
  assumes "in_range8 c" "in_range8 r"
  shows "targets (square_name c r @ s) tc tr \<longleftrightarrow> tc = c \<and> tr = r"
    and "targets (''Promote on '' @ square_name c r @ s) tc tr \<longleftrightarrow> tc = c \<and> tr = r"
proof -
  have t2: "take 2 (square_name c r @ s) = square_name c r"
    using assms by (simp add: square_name_in_range)
  have eq: "in_range8 tc \<and> in_range8 tr \<and> square_name c r = square_name tc tr \<longleftrightarrow> tc = c \<and> tr = r"
    using assms square_name_inj [of tc tr c r] by auto
  show "targets (square_name c r @ s) tc tr \<longleftrightarrow> tc = c \<and> tr = r"
    unfolding targets_def move_body_plain [OF assms] t2 by (rule eq)
  show "targets (''Promote on '' @ square_name c r @ s) tc tr \<longleftrightarrow> tc = c \<and> tr = r"
    unfolding targets_def move_body_promoted t2 by (rule eq)
qed

lemma str_in_char: "str_in [d] s \<longleftrightarrow> d \<in> set s"
  by (induction s) auto

lemma str_in_first: "str_in sub s \<Longrightarrow> sub \<noteq> [] \<Longrightarrow> hd sub \<in> set s"
proof (induction s)
  case Nil
  then show ?case by simp
next
  case (Cons ch s)
  then show ?case by (cases sub) (auto simp: take_Cons')
qed

lemma str_in_nil: "str_in [] s"
  by (cases s) auto

lemma str_in_prefix: "str_in sub (sub @ ys)"
proof (cases "sub @ ys")
  case Nil
  then show ?thesis by (simp add: str_in_nil)
next
  case (Cons ch s)
  have "take (length sub) (sub @ ys) = sub" by simp
  then have "take (length sub) (ch # s) = sub" by (simp only: Cons)
  then have "str_in sub (ch # s)" by (simp only: str_in.simps) simp
  then show ?thesis by (simp only: Cons)
qed

lemma str_in_append: "str_in sub (xs @ sub @ ys)"
  by (induction xs) (auto simp: str_in_prefix)

lemma str_in_append_left: "str_in sub s \<Longrightarrow> str_in sub (xs @ s)"
  by (induction xs) auto

lemma set_square_name:
  "in_range8 c \<Longrightarrow> in_range8 r \<Longrightarrow> set (square_name c r) \<subseteq> set ''abcdefgh87654321''"
  using column_letter_mem [of c] row_digit_mem [of r]
  by (auto simp: square_name_in_range)

lemma plain_not_capture:
  assumes "in_range8 c" "in_range8 r"
  shows "\<not> str_in ''Capture'' (square_name c r)"
    and "\<not> str_in ''Capture'' (''Promote on '' @ square_name c r)"
  using str_in_first [of "''Capture''" "square_name c r"]
    str_in_first [of "''Capture''" "''Promote on '' @ square_name c r"]
    set_square_name [OF assms]
  by auto

lemma capture_is_capture:
  "str_in ''Capture'' (capture_text b c r)"
  "str_in ''Capture'' (''Promote on '' @ capture_text b c r)"
proof -
  have "str_in ''Capture'' ((square_name c r @ '' ('') @ ''Capture'' @ ('' '' @ kind_title (token_at b c r) @ '')''))"
    by (rule str_in_append)
  then show "str_in ''Capture'' (capture_text b c r)" by (simp add: capture_text_def)
  then show "str_in ''Capture'' (''Promote on '' @ capture_text b c r)"
    by (rule str_in_append_left)
qed

subsection \<open>Indexing outside the board; the call relation of the loop\<close>



lemma walk_loop_rel_step:
  assumes "walk_loop_rel y (b, clr, column_step, row_step, c, r, max_distance, mvs, stop)"
  shows "0 < max_distance \<and> in_range8 (c + column_step) \<and> in_range8 (r + row_step) \<and>
         (\<exists>mvs' stop'. y = (b, clr, column_step, row_step, c + column_step, r + row_step,
                              max_distance + - 1, mvs', stop'))"
  using assms by (cases rule: walk_loop_rel.cases) simp


lemma walk_loop_dom_all:
  "walk_loop_dom (b, clr, column_step, row_step, c, r, max_distance, mvs, stop)"
proof (induction "nat max_distance" arbitrary: c r max_distance mvs stop)
  case 0
  show ?case
  proof (rule accp.intros)
    fix y
    assume "walk_loop_rel y (b, clr, column_step, row_step, c, r, max_distance, mvs, stop)"
    then have "0 < max_distance" by (simp add: walk_loop_rel_step)
    with 0 show "walk_loop_dom y" by simp
  qed
next
  case (Suc n)
  show ?case
  proof (rule accp.intros)
    fix y
    assume "walk_loop_rel y (b, clr, column_step, row_step, c, r, max_distance, mvs, stop)"
    then obtain mvs' stop' where
      y: "y = (b, clr, column_step, row_step, c + column_step, r + row_step,
               max_distance + - 1, mvs', stop')"
      using walk_loop_rel_step by blast
    from Suc.hyps(2) have "n = nat (max_distance + - 1)" by simp
    then show "walk_loop_dom y" unfolding y by (rule Suc.hyps(1))
  qed
qed

subsection \<open>The pawn rule\<close>

lemma ray_member:
  "m \<in> set (ray b clr d n c r) \<Longrightarrow> \<exists>tc tr. ray_move b clr m tc tr"
proof (induction n arbitrary: c r)
  case 0
  then show ?case by simp
next
  case (Suc n)
  then show ?case
    by (auto simp: Let_def ray_move_def split: if_splits)
qed

lemma ray_one:
  "ray b clr d (Suc 0) c r =
     (if is_empty b (c + fst d) (r + snd d) then [square_name (c + fst d) (r + snd d)]
      else if is_opponent b clr (c + fst d) (r + snd d) then [capture_text b (c + fst d) (r + snd d)]
      else [])"
  by (auto simp: Let_def is_empty_def is_opponent_def)

lemma ray_two:
  "ray b clr d (Suc (Suc 0)) c r =
     (if is_empty b (c + fst d) (r + snd d)
      then square_name (c + fst d) (r + snd d) # ray b clr d (Suc 0) (c + fst d) (r + snd d)
      else if is_opponent b clr (c + fst d) (r + snd d) then [capture_text b (c + fst d) (r + snd d)]
      else [])"
  by (auto simp: Let_def is_empty_def is_opponent_def)

lemma empty_not_opponent: "is_empty b c r \<Longrightarrow> \<not> is_opponent b clr c r"
  by (simp add: is_empty_def is_opponent_def)

lemma filter_capture_ray_one:
  "[move \<leftarrow> ray b clr d (Suc 0) c r. str_in ''Capture'' move] =
     (if is_opponent b clr (c + fst d) (r + snd d)
      then [capture_text b (c + fst d) (r + snd d)] else [])"
proof (cases "is_empty b (c + fst d) (r + snd d)")
  case True
  then have "\<not> str_in ''Capture'' (square_name (c + fst d) (r + snd d))"
    by (simp add: plain_not_capture is_empty_def)
  with True show ?thesis
    by (simp add: ray_one empty_not_opponent del: ray.simps)
next
  case False
  then show ?thesis
    by (simp add: ray_one capture_is_capture del: ray.simps)
qed

lemma filter_plain_ray_one:
  "[move \<leftarrow> ray b clr d (Suc 0) c r. \<not> str_in ''Capture'' move] =
     (if is_empty b (c + fst d) (r + snd d) then [square_name (c + fst d) (r + snd d)] else [])"
proof (cases "is_empty b (c + fst d) (r + snd d)")
  case True
  then have "\<not> str_in ''Capture'' (square_name (c + fst d) (r + snd d))"
    by (simp add: plain_not_capture is_empty_def)
  with True show ?thesis
    by (simp add: ray_one del: ray.simps)
next
  case False
  then show ?thesis
    by (simp add: ray_one capture_is_capture del: ray.simps)
qed

lemma filter_plain_ray_two:
  "[move \<leftarrow> ray b clr d 2 c r. \<not> str_in ''Capture'' move] =
     (if is_empty b (c + fst d) (r + snd d)
      then square_name (c + fst d) (r + snd d) #
           (if is_empty b (c + fst d + fst d) (r + snd d + snd d)
            then [square_name (c + fst d + fst d) (r + snd d + snd d)] else [])
      else [])"
proof (cases "is_empty b (c + fst d) (r + snd d)")
  case True
  then have "\<not> str_in ''Capture'' (square_name (c + fst d) (r + snd d))"
    by (simp add: plain_not_capture is_empty_def)
  with True show ?thesis
    unfolding numeral_2_eq_2
    by (simp add: ray_two filter_plain_ray_one del: ray.simps)
next
  case False
  then show ?thesis
    unfolding numeral_2_eq_2
    by (simp add: ray_two capture_is_capture del: ray.simps)
qed

lemma pawn_capture_loop_two:
  assumes "valid_board b" "valid_mover p"
  shows "pawn_capture_loop b p mvs [d1, d2] =
           Inr (mvs @ [move \<leftarrow> ray b (color p) d1 (Suc 0) (column p) (row p). str_in ''Capture'' move]
                    @ [move \<leftarrow> ray b (color p) d2 (Suc 0) (column p) (row p). str_in ''Capture'' move])"
  by (simp add: walk_ray [OF assms] del: ray.simps)

lemma pawn_moves_eq:
  assumes "valid_board b" "valid_mover p"
  shows "pawn_moves b p =
           Inr (map (promote (color p)) (pawn_forward b p @ pawn_capture b p 1 @ pawn_capture b p (-1)))"
proof (cases "color p = ''white''")
  case True
  show ?thesis
  proof (cases "row p = 6")
    case r6: True
    show ?thesis using True r6
      by (simp add: pawn_moves_def walk_ray [OF assms] pawn_capture_loop_two [OF assms]
          filter_capture_ray_one filter_plain_ray_two pawn_forward_def pawn_capture_def
          forward_dir_def start_row_def promote_def Let_def del: ray.simps cong: map_cong)
  next
    case r6: False
    show ?thesis using True r6
      by (simp add: pawn_moves_def walk_ray [OF assms] pawn_capture_loop_two [OF assms]
          filter_capture_ray_one filter_plain_ray_one pawn_forward_def pawn_capture_def
          forward_dir_def start_row_def promote_def Let_def del: ray.simps cong: map_cong)
  qed
next
  case False
  show ?thesis
  proof (cases "row p = 1")
    case r1: True
    show ?thesis using False r1
      by (simp add: pawn_moves_def walk_ray [OF assms] pawn_capture_loop_two [OF assms]
          filter_capture_ray_one filter_plain_ray_two pawn_forward_def pawn_capture_def
          forward_dir_def start_row_def promote_def Let_def del: ray.simps cong: map_cong)
  next
    case r1: False
    show ?thesis using False r1
      by (simp add: pawn_moves_def walk_ray [OF assms] pawn_capture_loop_two [OF assms]
          filter_capture_ray_one filter_plain_ray_one pawn_forward_def pawn_capture_def
          forward_dir_def start_row_def promote_def Let_def del: ray.simps cong: map_cong)
  qed
qed

lemma promote_cases: "promote clr x = x \<or> promote clr x = ''Promote on '' @ x"
  by (simp add: promote_def)

lemma targets_promote:
  assumes "in_range8 c" "in_range8 r"
  shows "targets (promote clr (square_name c r @ s)) tc tr \<longleftrightarrow> tc = c \<and> tr = r"
  using promote_cases [of clr "square_name c r @ s"] targets_text [OF assms, of s tc tr]
  by auto

lemma targets_promote_plain:
  "is_empty b c r \<Longrightarrow> targets (promote clr (square_name c r)) tc tr \<longleftrightarrow> tc = c \<and> tr = r"
  using targets_promote [of c r clr "[]" tc tr] by (simp add: is_empty_def)

lemma targets_promote_capture:
  "is_opponent b clr' c r \<Longrightarrow> targets (promote clr (capture_text b c r)) tc tr \<longleftrightarrow> tc = c \<and> tr = r"
  unfolding capture_text_def
  using targets_promote [of c r clr _ tc tr] by (simp add: is_opponent_def)

lemma flagged_promote:
  assumes "in_range8 c" "in_range8 r"
  shows "flagged (promote clr (square_name c r @ s)) \<longleftrightarrow>
           str_in (if clr = ''white'' then ''8'' else ''1'') (square_name c r @ s)"
proof (cases "str_in (if clr = ''white'' then ''8'' else ''1'') (square_name c r @ s)")
  case True
  then have "promote clr (square_name c r @ s) = ''Promote on '' @ (square_name c r @ s)"
    by (simp only: promote_def if_True)
  with True flagged_promoted [of "square_name c r @ s"] show ?thesis by (simp only:)
next
  case False
  then have "promote clr (square_name c r @ s) = square_name c r @ s"
    by (simp only: promote_def if_False)
  with False not_flagged_square [OF assms, of s] show ?thesis by (simp only:)
qed

lemma row_digit_8: "in_range8 r \<Longrightarrow> ''87654321'' ! nat r = CHR ''8'' \<longleftrightarrow> r = 0"
  using row_digit_inj [of r 0] by (auto simp: in_range8_def)

lemma row_digit_1: "in_range8 r \<Longrightarrow> ''87654321'' ! nat r = CHR ''1'' \<longleftrightarrow> r = 7"
  using row_digit_inj [of r 7] by (auto simp: in_range8_def)

lemma digit_in_square_name:
  assumes "in_range8 c" "in_range8 r"
  shows "CHR ''8'' \<in> set (square_name c r) \<longleftrightarrow> r = 0"
    and "CHR ''1'' \<in> set (square_name c r) \<longleftrightarrow> r = 7"
  using column_letter_mem [OF assms(1)] row_digit_8 [OF assms(2)] row_digit_1 [OF assms(2)]
  by (auto simp: square_name_in_range [OF assms])

lemma opponent_kind_title:
  assumes "valid_board b" "is_opponent b clr c r"
  shows "kind_title (token_at b c r) \<in> {''Pawn'', ''Rook'', ''Knight'', ''Bishop'', ''Queen'', ''King''}"
proof -
  from assms have on: "in_range8 c" "in_range8 r" and ne: "token_at b c r \<noteq> ''x''"
    by (simp_all add: is_opponent_def)
  from board_lookup_valid(2) [OF assms(1) on] show ?thesis
  proof (cases rule: valid_token_cases)
    case empty
    with ne show ?thesis by simp
  next
    case (occupied cl k)
    then show ?thesis using kind_title_valid [of k cl] by simp
  qed
qed

lemma digit_in_capture_text:
  assumes "valid_board b" "is_opponent b clr c r"
  shows "CHR ''8'' \<in> set (capture_text b c r) \<longleftrightarrow> r = 0"
    and "CHR ''1'' \<in> set (capture_text b c r) \<longleftrightarrow> r = 7"
proof -
  from assms have on: "in_range8 c" "in_range8 r" by (simp_all add: is_opponent_def)
  from opponent_kind_title [OF assms]
  have "CHR ''8'' \<notin> set (kind_title (token_at b c r)) \<and> CHR ''1'' \<notin> set (kind_title (token_at b c r))"
    by auto
  then show "CHR ''8'' \<in> set (capture_text b c r) \<longleftrightarrow> r = 0"
    and "CHR ''1'' \<in> set (capture_text b c r) \<longleftrightarrow> r = 7"
    by (simp_all add: capture_text_def digit_in_square_name [OF on])
qed

lemma flagged_promote_plain:
  assumes "is_empty b c r"
  shows "flagged (promote clr (square_name c r)) \<longleftrightarrow> r = promotion_row clr"
proof -
  from assms have on: "in_range8 c" "in_range8 r" by (simp_all add: is_empty_def)
  from flagged_promote [OF on, of clr "[]"] digit_in_square_name [OF on] on
  show ?thesis by (auto simp: str_in_char promotion_row_def)
qed

lemma flagged_promote_capture:
  assumes "valid_board b" "is_opponent b clr' c r"
  shows "flagged (promote clr (capture_text b c r)) \<longleftrightarrow> r = promotion_row clr"
proof -
  from assms have on: "in_range8 c" "in_range8 r" by (simp_all add: is_opponent_def)
  have "flagged (promote clr (capture_text b c r)) \<longleftrightarrow>
          str_in (if clr = ''white'' then ''8'' else ''1'') (capture_text b c r)"
    unfolding capture_text_def by (rule flagged_promote [OF on])
  with digit_in_capture_text [OF assms]
  show ?thesis by (auto simp: str_in_char promotion_row_def)
qed

lemma pawn_forward_targets:
  "(\<exists>x \<in> set (pawn_forward b p). targets (promote clr x) tc tr) \<longleftrightarrow>
     (tc = column p \<and> tr = row p + forward_dir (color p) \<and>
        is_empty b (column p) (row p + forward_dir (color p))) \<or>
     (tc = column p \<and> tr = row p + 2 * forward_dir (color p) \<and> row p = start_row (color p) \<and>
        is_empty b (column p) (row p + forward_dir (color p)) \<and>
        is_empty b (column p) (row p + 2 * forward_dir (color p)))"
proof (cases "is_empty b (column p) (row p + forward_dir (color p))")
  case False
  then show ?thesis by (simp add: pawn_forward_def Let_def)
next
  case one: True
  show ?thesis
  proof (cases "row p = start_row (color p) \<and>
      is_empty b (column p) (row p + 2 * forward_dir (color p))")
    case True
    with one show ?thesis
      by (auto simp: pawn_forward_def Let_def targets_promote_plain)
  next
    case False
    with one show ?thesis
      by (auto simp: pawn_forward_def Let_def targets_promote_plain)
  qed
qed

lemma pawn_capture_targets:
  "(\<exists>x \<in> set (pawn_capture b p d). targets (promote clr x) tc tr) \<longleftrightarrow>
     (tc = column p + d \<and> tr = row p + forward_dir (color p) \<and>
        is_opponent b (color p) (column p + d) (row p + forward_dir (color p)))"
  by (cases "is_opponent b (color p) (column p + d) (row p + forward_dir (color p))")
    (simp_all add: pawn_capture_def Let_def targets_promote_capture)

lemma pawn_targets:
  "(\<exists>m \<in> set (map (promote clr)
        (pawn_forward b p @ pawn_capture b p 1 @ pawn_capture b p (-1))). targets m tc tr) \<longleftrightarrow>
     (tc = column p \<and> tr = row p + forward_dir (color p) \<and>
        is_empty b (column p) (row p + forward_dir (color p))) \<or>
     (tc = column p \<and> tr = row p + 2 * forward_dir (color p) \<and> row p = start_row (color p) \<and>
        is_empty b (column p) (row p + forward_dir (color p)) \<and>
        is_empty b (column p) (row p + 2 * forward_dir (color p))) \<or>
     (tc = column p + 1 \<and> tr = row p + forward_dir (color p) \<and>
        is_opponent b (color p) (column p + 1) (row p + forward_dir (color p))) \<or>
     (tc = column p - 1 \<and> tr = row p + forward_dir (color p) \<and>
        is_opponent b (color p) (column p - 1) (row p + forward_dir (color p)))"
proof -
  have "(\<exists>m \<in> set (map (promote clr)
        (pawn_forward b p @ pawn_capture b p 1 @ pawn_capture b p (-1))). targets m tc tr) \<longleftrightarrow>
      (\<exists>x \<in> set (pawn_forward b p). targets (promote clr x) tc tr) \<or>
      (\<exists>x \<in> set (pawn_capture b p 1). targets (promote clr x) tc tr) \<or>
      (\<exists>x \<in> set (pawn_capture b p (-1)). targets (promote clr x) tc tr)"
    by (simp add: bex_Un del: One_nat_def)
  then show ?thesis
    using pawn_forward_targets [of b p clr tc tr] pawn_capture_targets [of b p 1 clr tc tr]
      pawn_capture_targets [of b p "-1" clr tc tr]
    by simp
qed

lemma pawn_move_cases:
  assumes "m \<in> set (map (promote clr)
        (pawn_forward b p @ pawn_capture b p 1 @ pawn_capture b p (-1)))"
  obtains (plain) tc tr where "is_empty b tc tr" "m = promote clr (square_name tc tr)"
  | (capture) tc tr where "is_opponent b (color p) tc tr" "m = promote clr (capture_text b tc tr)"
  using assms
  by (auto simp: pawn_forward_def pawn_capture_def Let_def split: if_splits)

lemma forward_dir_cases: "forward_dir clr = -1 \<or> forward_dir clr = 1"
  by (simp add: forward_dir_def)

lemma pawn_flags:
  assumes "valid_board b"
    and "m \<in> set (map (promote clr)
        (pawn_forward b p @ pawn_capture b p 1 @ pawn_capture b p (-1)))"
    and "targets m tc tr"
  shows "flagged m \<longleftrightarrow> tr = promotion_row clr"
  using assms(2)
proof (cases rule: pawn_move_cases)
  case (plain tc' tr')
  with assms(3) have "tc = tc' \<and> tr = tr'" by (simp add: targets_promote_plain)
  with plain show ?thesis by (simp add: flagged_promote_plain)
next
  case (capture tc' tr')
  with assms(3) have "tc = tc' \<and> tr = tr'" by (simp add: targets_promote_capture)
  with capture assms(1) show ?thesis by (simp add: flagged_promote_capture)
qed

subsection \<open>Every move of find\_moves comes from a ray\<close>

lemma dict_get_present:
  "k \<in> fst ` set d \<Longrightarrow> \<exists>v. dict_get d k = Inr v"
  by (cases "map_of d k") (auto simp: dict_get_def map_of_eq_None_iff)

lemma walk_members:
  assumes "valid_board b" "valid_mover p"
  shows "\<exists>found. walk b p steps max_distance = Inr found \<and>
           (\<forall>m \<in> set found. \<exists>tc tr. ray_move b (color p) m tc tr)"
  using walk_ray [OF assms, of steps max_distance] ray_member by blast

lemma walk_paths_members:
  assumes "valid_board b" "valid_mover p"
  shows "set available_paths \<subseteq> fst ` set move_changes \<Longrightarrow>
         \<forall>m \<in> set mvs. \<exists>tc tr. ray_move b (color p) m tc tr \<Longrightarrow>
         \<exists>ms. walk_paths b p max_distance mvs available_paths = Inr ms \<and>
              (\<forall>m \<in> set ms. \<exists>tc tr. ray_move b (color p) m tc tr)"
proof (induction available_paths arbitrary: mvs)
  case Nil
  then show ?case by simp
next
  case (Cons path available_paths)
  from Cons.prems(1) obtain steps where st: "dict_get move_changes path = Inr steps"
    using dict_get_present [of path move_changes] by auto
  from walk_members [OF assms, of steps max_distance] obtain found
    where w: "walk b p steps max_distance = Inr found"
      and f: "\<forall>m \<in> set found. \<exists>tc tr. ray_move b (color p) m tc tr" by blast
  from Cons.prems(2) f have "\<forall>m \<in> set (mvs @ found). \<exists>tc tr. ray_move b (color p) m tc tr"
    by auto
  with Cons.IH [of "mvs @ found"] Cons.prems(1) st w show ?case by simp
qed

lemma knight_moves_loop_members:
  assumes "valid_board b" "valid_mover p"
  shows "\<forall>m \<in> set mvs. \<exists>tc tr. ray_move b (color p) m tc tr \<Longrightarrow>
         \<exists>ms. knight_moves_loop b p mvs paths = Inr ms \<and>
              (\<forall>m \<in> set ms. \<exists>tc tr. ray_move b (color p) m tc tr)"
proof (induction paths arbitrary: mvs)
  case Nil
  then show ?case by simp
next
  case (Cons path paths)
  from walk_members [OF assms, of path 1] obtain found
    where w: "walk b p path 1 = Inr found"
      and f: "\<forall>m \<in> set found. \<exists>tc tr. ray_move b (color p) m tc tr" by blast
  from Cons.prems f have "\<forall>m \<in> set (mvs @ found). \<exists>tc tr. ray_move b (color p) m tc tr"
    by auto
  with Cons.IH [of "mvs @ found"] w show ?case by simp
qed

lemma move_options_paths:
  "map_of move_options nm = Some (available_paths, max_distance) \<Longrightarrow>
   set available_paths \<subseteq> fst ` set move_changes"
  by (auto simp: move_options_def move_changes_def cross_moves_def diagonal_moves_def
      split: if_splits)

lemma pawn_moves_members:
  assumes "valid_board b" "valid_mover p"
  shows "\<exists>ms. pawn_moves b p = Inr ms \<and>
           (\<forall>m \<in> set ms. \<exists>m' tc tr. (m = m' \<or> m = ''Promote on '' @ m') \<and>
              ray_move b (color p) m' tc tr)"
proof -
  have "\<exists>m' tc tr. (m = m' \<or> m = ''Promote on '' @ m') \<and> ray_move b (color p) m' tc tr"
    if "m \<in> set (map (promote (color p))
        (pawn_forward b p @ pawn_capture b p 1 @ pawn_capture b p (-1)))" for m
    using that
  proof (cases rule: pawn_move_cases)
    case (plain tc tr)
    then have "ray_move b (color p) (square_name tc tr) tc tr" by (simp add: ray_move_def)
    with plain(2) promote_cases [of "color p" "square_name tc tr"] show ?thesis by metis
  next
    case (capture tc tr)
    then have "ray_move b (color p) (capture_text b tc tr) tc tr" by (simp add: ray_move_def)
    with capture(2) promote_cases [of "color p" "capture_text b tc tr"] show ?thesis by metis
  qed
  with pawn_moves_eq [OF assms] show ?thesis by blast
qed

lemma find_moves_members:
  assumes "valid_board b" "valid_mover p"
  shows "\<exists>ms. find_moves b p = Inr ms \<and>
           (\<forall>m \<in> set ms. \<exists>m' tc tr. (m = m' \<or> m = ''Promote on '' @ m') \<and>
              ray_move b (color p) m' tc tr)"
proof (cases "map_of move_options (name p)")
  case (Some opt)
  obtain available_paths max_distance where opt: "opt = (available_paths, max_distance)"
    by (cases opt)
  from Some opt have "set available_paths \<subseteq> fst ` set move_changes"
    by (simp add: move_options_paths)
  from walk_paths_members [OF assms this, of "[]" max_distance]
  obtain ms where "walk_paths b p max_distance [] available_paths = Inr ms"
    and "\<forall>m \<in> set ms. \<exists>tc tr. ray_move b (color p) m tc tr" by auto
  moreover from Some opt
  have "find_moves b p = walk_paths b p max_distance [] available_paths"
    by (simp add: find_moves_def)
  ultimately show ?thesis by metis
next
  case None
  show ?thesis
  proof (cases "name p = ''pawn''")
    case True
    with None pawn_moves_members [OF assms] show ?thesis by (simp add: find_moves_def)
  next
    case False
    from knight_moves_loop_members [OF assms, of "[]" knight_options]
    obtain ms where "knight_moves_loop b p [] knight_options = Inr ms"
      and "\<forall>m \<in> set ms. \<exists>tc tr. ray_move b (color p) m tc tr" by auto
    moreover from None False
    have "find_moves b p = knight_moves_loop b p [] knight_options"
      by (simp add: find_moves_def knight_moves_def)
    ultimately show ?thesis by metis
  qed
qed



lemma capture_move_target:
  assumes "ray_move b clr m' tc' tr'" "m = m' \<or> m = ''Promote on '' @ m'"
    and "str_in ''Capture'' m" "targets m tc tr"
  shows "is_opponent b clr tc tr"
proof (cases "is_empty b tc' tr'")
  case True
  with assms(1) have m': "m' = square_name tc' tr'" and on: "in_range8 tc'" "in_range8 tr'"
    by (auto simp: ray_move_def is_empty_def empty_not_opponent)
  with assms(2,3) plain_not_capture [OF on] show ?thesis by auto
next
  case False
  with assms(1) have opp: "is_opponent b clr tc' tr'"
    and m': "m' = square_name tc' tr' @ '' (Capture '' @ kind_title (token_at b tc' tr') @ '')''"
    by (auto simp: ray_move_def capture_text_def)
  from opp have on: "in_range8 tc'" "in_range8 tr'" by (simp_all add: is_opponent_def)
  from assms(2,4) have "tc = tc' \<and> tr = tr'"
    unfolding m' using targets_text [OF on] by blast
  with opp show ?thesis by simp
qed

subsection \<open>Piece construction and the scan of find\_pieces\<close>

lemma walk_ignores_moves: "walk b (p\<lparr>moves := x\<rparr>) steps max_distance = walk b p steps max_distance"
  by (simp add: walk_def)

lemma walk_paths_ignores_moves:
  "walk_paths b (p\<lparr>moves := x\<rparr>) max_distance mvs paths = walk_paths b p max_distance mvs paths"
  by (induction paths arbitrary: mvs) (simp_all add: walk_ignores_moves split: sum.splits)

lemma knight_moves_loop_ignores_moves:
  "knight_moves_loop b (p\<lparr>moves := x\<rparr>) mvs paths = knight_moves_loop b p mvs paths"
  by (induction paths arbitrary: mvs) (simp_all add: walk_ignores_moves split: sum.splits)

lemma pawn_capture_loop_ignores_moves:
  "pawn_capture_loop b (p\<lparr>moves := x\<rparr>) mvs paths = pawn_capture_loop b p mvs paths"
  by (induction paths arbitrary: mvs) (simp_all add: walk_ignores_moves split: sum.splits)

lemma pawn_moves_ignores_moves: "pawn_moves b (p\<lparr>moves := x\<rparr>) = pawn_moves b p"
  unfolding pawn_moves_def walk_ignores_moves pawn_capture_loop_ignores_moves by simp

lemma knight_moves_ignores_moves: "knight_moves b (p\<lparr>moves := x\<rparr>) = knight_moves b p"
  unfolding knight_moves_def knight_moves_loop_ignores_moves by simp

lemma find_moves_ignores_moves: "find_moves b (p\<lparr>moves := x\<rparr>) = find_moves b p"
  unfolding find_moves_def pawn_moves_ignores_moves knight_moves_ignores_moves
    walk_paths_ignores_moves
  by simp

lemma Piece_valid:
  assumes "valid_board b" "clr = ''w'' \<or> clr = ''b''" "in_range8 c" "in_range8 r"
    and "token_at b c r = [cl, k]" "k \<in> set ''prnbqk''"
  shows "\<exists>p. Piece b clr k c r = Inr p \<and> column p = c \<and> row p = r \<and> collected b clr p"
proof -
  from assms(2) obtain self_color where sc: "dict_get piece_colors clr = Inr self_color"
    and w: "self_color = ''white'' \<or> self_color = ''black''"
    by (auto simp: dict_get_def piece_colors_def)
  from kind_title_dict [OF assms(6)] obtain self_name
    where sn: "dict_get piece_names k = Inr self_name" by blast
  define self where "self = \<lparr>color = self_color, name = self_name, column = c, row = r, moves = []\<rparr>"
  from w assms(3,4) have "valid_mover self" by (simp add: valid_mover_def self_def)
  from find_moves_members [OF assms(1) this] obtain found
    where fm: "find_moves b self = Inr found" by blast
  have P: "Piece b clr k c r = Inr (self\<lparr>moves := found\<rparr>)"
    using sc sn fm by (simp add: Piece_def self_def [symmetric])
  have "collected b clr (self\<lparr>moves := found\<rparr>)"
    using sc sn fm assms(5)
    by (simp add: collected_def find_moves_ignores_moves) (simp add: self_def)
  moreover have "column (self\<lparr>moves := found\<rparr>) = c" "row (self\<lparr>moves := found\<rparr>) = r"
    by (simp_all add: self_def)
  ultimately show ?thesis using P by blast
qed

lemma find_pieces_row_scan:
  assumes "valid_board b" "clr = ''w'' \<or> clr = ''b''" "in_range8 r"
    and "getitem b r = Inr board_row"
  shows "\<forall>c \<in> set cols. in_range8 c \<Longrightarrow>
     \<exists>new. find_pieces_row b clr r board_row acc cols = Inr (acc @ new) \<and>
       map (\<lambda>p. (column p, row p)) new = [(c, r). c \<leftarrow> cols, owned b clr c r] \<and>
       (\<forall>p \<in> set new. collected b clr p)"
proof (induction cols arbitrary: acc)
  case Nil
  then show ?case by simp
next
  case (Cons c cols)
  then have c: "in_range8 c" by simp
  have "board_lookup b c r = getitem board_row c"
    by (simp only: board_lookup_def assms(4) sum.case)
  with board_lookup_valid [OF assms(1) c assms(3)]
  have tok: "getitem board_row c = Inr (token_at b c r)" and v: "valid_token (token_at b c r)"
    by (simp_all only:)
  from Cons.prems have rest: "\<forall>c \<in> set cols. in_range8 c" by simp
  from v show ?case
  proof (cases rule: valid_token_cases)
    case empty
    with assms(2) have no: "\<not> owned b clr c r" by (auto simp: owned_def)
    from empty have g0: "getitem (token_at b c r) 0 = Inr (CHR ''x'')"
      by (simp add: getitem_def)
    from assms(2) have "[CHR ''x''] \<noteq> clr" by auto
    then have "find_pieces_row b clr r board_row acc (c # cols) =
        find_pieces_row b clr r board_row acc cols"
      by (simp add: tok g0)
    with Cons.IH [OF rest, of acc] no show ?thesis by simp
  next
    case (occupied cl k)
    from occupied(1) have g0: "getitem (token_at b c r) 0 = Inr cl"
      and g1: "getitem (token_at b c r) 1 = Inr k"
      by (simp_all add: getitem_def)
    show ?thesis
    proof (cases "[cl] = clr")
      case False
      with occupied have no: "\<not> owned b clr c r" by (simp add: owned_def)
      from False have "find_pieces_row b clr r board_row acc (c # cols) =
          find_pieces_row b clr r board_row acc cols"
        by (simp add: tok g0)
      with Cons.IH [OF rest, of acc] no show ?thesis by simp
    next
      case True
      with occupied have yes: "owned b clr c r" by (simp add: owned_def)
      from Piece_valid [OF assms(1,2) c assms(3) occupied(1,3)] obtain p
        where p: "Piece b clr k c r = Inr p" "column p = c" "row p = r" "collected b clr p"
        by blast
      from True p(1) have "find_pieces_row b clr r board_row acc (c # cols) =
          find_pieces_row b clr r board_row (acc @ [p]) cols"
        by (simp add: tok g0 g1)
      moreover from Cons.IH [OF rest, of "acc @ [p]"] obtain new
        where "find_pieces_row b clr r board_row (acc @ [p]) cols = Inr ((acc @ [p]) @ new)"
          and "map (\<lambda>p. (column p, row p)) new = [(c, r). c \<leftarrow> cols, owned b clr c r]"
          and "\<forall>p \<in> set new. collected b clr p" by blast
      ultimately have "find_pieces_row b clr r board_row acc (c # cols) = Inr (acc @ (p # new)) \<and>
         map (\<lambda>p. (column p, row p)) (p # new) = [(c, r). c \<leftarrow> c # cols, owned b clr c r] \<and>
         (\<forall>p \<in> set (p # new). collected b clr p)"
        using yes p(2,3,4) by simp
      then show ?thesis by blast
    qed
  qed
qed

lemma find_pieces_rows_scan:
  assumes "valid_board b" "clr = ''w'' \<or> clr = ''b''"
  shows "\<forall>r \<in> set order. in_range8 r \<Longrightarrow>
     \<exists>new. find_pieces_rows b clr acc order = Inr (acc @ new) \<and>
       map (\<lambda>p. (column p, row p)) new =
         [(c, r). r \<leftarrow> order, c \<leftarrow> [0..7], owned b clr c r] \<and>
       (\<forall>p \<in> set new. collected b clr p)"
proof (induction order arbitrary: acc)
  case Nil
  then show ?case by simp
next
  case (Cons r order)
  then have r: "in_range8 r" and rest: "\<forall>r \<in> set order. in_range8 r" by simp_all
  from assms(1) r have g: "getitem b r = Inr (b ! nat r)"
    by (simp add: getitem_in_range valid_board_def in_range8_def)
  have cols: "\<forall>c \<in> set [0..7]. in_range8 c" by (simp add: in_range8_def)
  from find_pieces_row_scan [OF assms r g cols, of acc] obtain new1
    where 1: "find_pieces_row b clr r (b ! nat r) acc [0..7] = Inr (acc @ new1)"
      "map (\<lambda>p. (column p, row p)) new1 = [(c, r). c \<leftarrow> [0..7], owned b clr c r]"
      "\<forall>p \<in> set new1. collected b clr p" by blast
  from Cons.IH [OF rest, of "acc @ new1"] obtain new2
    where 2: "find_pieces_rows b clr (acc @ new1) order = Inr ((acc @ new1) @ new2)"
      "map (\<lambda>p. (column p, row p)) new2 =
         [(c, r). r \<leftarrow> order, c \<leftarrow> [0..7], owned b clr c r]"
      "\<forall>p \<in> set new2. collected b clr p" by blast
  have "find_pieces_rows b clr acc (r # order) = Inr (acc @ (new1 @ new2))"
    using g 1(1) 2(1) by (simp del: upto.simps)
  moreover have "map (\<lambda>p. (column p, row p)) (new1 @ new2) =
         [(c, r). r \<leftarrow> r # order, c \<leftarrow> [0..7], owned b clr c r]"
    using 1(2) 2(2) by (simp del: upto.simps)
  moreover have "\<forall>p \<in> set (new1 @ new2). collected b clr p"
    using 1(3) 2(3) by auto
  ultimately show ?case by blast
qed

section \<open>The claims\<close>

text \<open>
  C1. The knight rule is claimed to try all eight canonical offsets, each exactly once.
  The table \<open>knight_options\<close> of the code holds \<open>(-2, -1)\<close> twice and \<open>(-2, 1)\<close> not
  at all. For a white knight alone on c6 the square a5 (two columns left, one row down)
  is therefore never reached, and a7 is reported twice.
\<close>

theorem knight_options_defect:
  "(-2, 1) \<notin> set knight_options \<and>
   count_list knight_options (-2, -1) = 2 \<and>
   set knight_options \<noteq> set canonical_knight_offsets \<and>
   knight_moves knight_c6_board knight_c6 =
     Inr [''b8'', ''d8'', ''e7'', ''e5'', ''d4'', ''b4'', ''a7'', ''a7'']"
  by code_simp

text \<open>
  C2. The knight's move list on an otherwise empty board is claimed to have the length
  given by the classic mobility table (2, 3, 4, 6 or 8). For a white knight alone on c1
  the table gives 4; the code returns five moves, a2 twice and b3, d3, e2 (the same
  duplicated offset as in C1).
\<close>

theorem knight_c1_five_moves:
  "valid_board knight_c1_board \<and> valid_mover knight_c1 \<and>
   knight_mobility 2 7 = 4 \<and>
   knight_moves knight_c1_board knight_c1 = Inr [''b3'', ''d3'', ''e2'', ''a2'', ''a2''] \<and>
   length [''b3'', ''d3'', ''e2'', ''a2'', ''a2''] \<notin> {2, 3, 4, 6, 8::nat}"
  by code_simp

text \<open>
  C3. On a validated board, for a piece of either colour standing on the board, any
  direction vector and any \<open>max_distance\<close>, \<open>walk\<close> raises nothing and returns exactly
  the moves of the Ray Walker of the specification: it visits the successive squares
  along the direction, emits a non-capturing move for an empty square and goes on, emits
  a capturing move naming the captured kind for a square of the opposing colour and
  stops, stops without a move at a square of its own colour, and stops when the
  coordinate leaves the board or \<open>max_distance\<close> steps are used up.
\<close>

theorem walk_follows_ray:
  assumes "valid_board b" and "valid_mover p"
  shows "walk b p direction max_distance =
           Inr (ray b (color p) direction (nat max_distance) (column p) (row p))"
  using assms by (rule walk_ray)

theorem walk_follows_ray_witness:
  "valid_board rook_board \<and> valid_mover rook_a8 \<and>
   walk rook_board rook_a8 (0, 1) 7 = Inr [''a7'', ''a6'', ''a5'', ''a4'', ''a3 (Capture Pawn)'']"
proof -
  have b: "valid_board rook_board"
    by (simp add: valid_board_def rook_board_def empty_row_def valid_token_def)
  have p: "valid_mover rook_a8"
    by (simp add: valid_mover_def rook_a8_def in_range8_def)
  have "ray rook_board (color rook_a8) (0, 1) (nat 7) (column rook_a8) (row rook_a8) =
          [''a7'', ''a6'', ''a5'', ''a4'', ''a3 (Capture Pawn)'']"
    by code_simp
  with walk_follows_ray [OF b p, of "(0, 1)" 7] b p show ?thesis by simp
qed

text \<open>
  C4. For a pawn of either colour on a validated board, \<open>pawn_moves\<close> raises nothing
  and: a move to the square one step forward is emitted exactly when that square is
  empty (so never onto an occupied square, own or enemy); a move to the square two steps
  forward is emitted exactly when the pawn stands on its starting row (6 for White, 1
  for Black) and both the intermediate and the destination square are empty; a move to
  either forward-diagonal square is emitted exactly when that square holds a piece of
  the opposing colour; and no other square is ever a target.
\<close>

theorem pawn_rule:
  assumes "valid_board b" and "valid_mover p"
  shows "\<exists>ms. pawn_moves b p = Inr ms \<and>
     ((\<exists>m \<in> set ms. targets m (column p) (row p + forward_dir (color p))) \<longleftrightarrow>
        is_empty b (column p) (row p + forward_dir (color p))) \<and>
     ((\<exists>m \<in> set ms. targets m (column p) (row p + 2 * forward_dir (color p))) \<longleftrightarrow>
        row p = start_row (color p) \<and>
        is_empty b (column p) (row p + forward_dir (color p)) \<and>
        is_empty b (column p) (row p + 2 * forward_dir (color p))) \<and>
     (\<forall>d \<in> {1, -1}.
        (\<exists>m \<in> set ms. targets m (column p + d) (row p + forward_dir (color p))) \<longleftrightarrow>
        is_opponent b (color p) (column p + d) (row p + forward_dir (color p))) \<and>
     (\<forall>m \<in> set ms.
        targets m (column p) (row p + forward_dir (color p)) \<or>
        targets m (column p) (row p + 2 * forward_dir (color p)) \<or>
        targets m (column p + 1) (row p + forward_dir (color p)) \<or>
        targets m (column p - 1) (row p + forward_dir (color p)))"
proof -
  define ms where "ms = map (promote (color p))
        (pawn_forward b p @ pawn_capture b p 1 @ pawn_capture b p (-1))"
  have eq: "pawn_moves b p = Inr ms"
    unfolding ms_def by (rule pawn_moves_eq [OF assms])
  note t = pawn_targets [of "color p" b p, folded ms_def]
  note f = forward_dir_cases [of "color p"]
  have A: "(\<exists>m \<in> set ms. targets m (column p) (row p + forward_dir (color p))) \<longleftrightarrow>
        is_empty b (column p) (row p + forward_dir (color p))"
    using f by (auto simp: t)
  have B: "(\<exists>m \<in> set ms. targets m (column p) (row p + 2 * forward_dir (color p))) \<longleftrightarrow>
        row p = start_row (color p) \<and>
        is_empty b (column p) (row p + forward_dir (color p)) \<and>
        is_empty b (column p) (row p + 2 * forward_dir (color p))"
    using f by (auto simp: t)
  have C: "\<forall>d \<in> {1, -1}.
        (\<exists>m \<in> set ms. targets m (column p + d) (row p + forward_dir (color p))) \<longleftrightarrow>
        is_opponent b (color p) (column p + d) (row p + forward_dir (color p))"
    using f by (auto simp: t)
  have D: "\<forall>m \<in> set ms.
        targets m (column p) (row p + forward_dir (color p)) \<or>
        targets m (column p) (row p + 2 * forward_dir (color p)) \<or>
        targets m (column p + 1) (row p + forward_dir (color p)) \<or>
        targets m (column p - 1) (row p + forward_dir (color p))"
  proof
    fix m assume m: "m \<in> set ms"
    then have "\<exists>tc tr. targets m tc tr"
      unfolding ms_def
      by (cases rule: pawn_move_cases)
        (use targets_promote_plain targets_promote_capture in blast)+
    then obtain tc tr where tt: "targets m tc tr" by blast
    with m have "\<exists>m \<in> set ms. targets m tc tr" by blast
    with tt show "targets m (column p) (row p + forward_dir (color p)) \<or>
        targets m (column p) (row p + 2 * forward_dir (color p)) \<or>
        targets m (column p + 1) (row p + forward_dir (color p)) \<or>
        targets m (column p - 1) (row p + forward_dir (color p))"
      unfolding t by auto
  qed
  from eq A B C D show ?thesis by blast
qed

theorem pawn_rule_witness:
  "valid_board pawn_board \<and> valid_mover pawn_d2 \<and>
   (\<exists>ms. pawn_moves pawn_board pawn_d2 = Inr ms \<and>
      (\<exists>m \<in> set ms. targets m 3 5) \<and> (\<exists>m \<in> set ms. targets m 3 4) \<and>
      (\<exists>m \<in> set ms. targets m 2 5) \<and> \<not> (\<exists>m \<in> set ms. targets m 4 5))"
proof -
  have b: "valid_board pawn_board"
    by (simp add: valid_board_def pawn_board_def empty_row_def valid_token_def)
  have p: "valid_mover pawn_d2"
    by (simp add: valid_mover_def pawn_d2_def in_range8_def)
  have v: "column pawn_d2 = 3" "row pawn_d2 = 6" "color pawn_d2 = ''white''"
    "forward_dir ''white'' = -1" "start_row ''white'' = 6"
    by (simp_all add: pawn_d2_def forward_dir_def start_row_def)
  have e: "is_empty pawn_board 3 5" "is_empty pawn_board 3 4"
    "is_opponent pawn_board ''white'' 2 5" "\<not> is_opponent pawn_board ''white'' 4 5"
    by code_simp+
  from pawn_rule [OF b p] obtain ms where "pawn_moves pawn_board pawn_d2 = Inr ms"
    and "(\<exists>m \<in> set ms. targets m 3 5) \<longleftrightarrow> is_empty pawn_board 3 5"
    and "(\<exists>m \<in> set ms. targets m 3 4) \<longleftrightarrow> is_empty pawn_board 3 5 \<and> is_empty pawn_board 3 4"
    and "\<forall>d \<in> {1, -1}. (\<exists>m \<in> set ms. targets m (3 + d) 5) \<longleftrightarrow>
           is_opponent pawn_board ''white'' (3 + d) 5"
    unfolding v by auto
  with e b p show ?thesis by auto
qed

text \<open>
  C5. For a pawn of either colour on a validated board, an emitted move is flagged
  \<open>''Promote on ''\<close> if and only if the row of the square it targets is 0 for a white
  pawn and 7 for a black pawn.
\<close>

theorem pawn_promotion_flag:
  assumes "valid_board b" and "valid_mover p"
  shows "\<exists>ms. pawn_moves b p = Inr ms \<and>
     (\<forall>m \<in> set ms. \<forall>tc tr. targets m tc tr \<longrightarrow>
        (flagged m \<longleftrightarrow> tr = promotion_row (color p)))"
  using pawn_moves_eq [OF assms] pawn_flags [OF assms(1), of _ "color p" p]
  by blast

theorem pawn_promotion_flag_witness:
  "valid_board promotion_board \<and> valid_mover pawn_b7 \<and>
   pawn_moves promotion_board pawn_b7 = Inr [''Promote on b8'', ''Promote on a8 (Capture Rook)''] \<and>
   targets ''Promote on a8 (Capture Rook)'' 0 0 \<and>
   (flagged ''Promote on a8 (Capture Rook)'' \<longleftrightarrow> 0 = promotion_row (color pawn_b7))"
proof -
  have b: "valid_board promotion_board"
    by (simp add: valid_board_def promotion_board_def empty_row_def valid_token_def)
  have p: "valid_mover pawn_b7"
    by (simp add: valid_mover_def pawn_b7_def in_range8_def)
  have ms: "pawn_moves promotion_board pawn_b7 =
      Inr [''Promote on b8'', ''Promote on a8 (Capture Rook)'']"
    by code_simp
  have t: "targets ''Promote on a8 (Capture Rook)'' 0 0" by code_simp
  from pawn_promotion_flag [OF b p] ms t
  have "flagged ''Promote on a8 (Capture Rook)'' \<longleftrightarrow> 0 = promotion_row (color pawn_b7)"
    by auto
  with b p ms t show ?thesis by blast
qed






text \<open>
  C8. For a validated board and a piece of either colour standing on it, whenever an
  emitted move is a capture (its text contains \<open>''Capture''\<close>) and targets the on-board
  square \<open>(tc, tr)\<close>, that square holds a piece whose colour letter differs from the
  mover's: never a piece of the mover's own colour.
\<close>

theorem captures_only_opponents:
  assumes "valid_board b" and "valid_mover p"
  shows "\<exists>ms. find_moves b p = Inr ms \<and>
     (\<forall>m \<in> set ms. \<forall>tc tr. str_in ''Capture'' m \<and> targets m tc tr \<longrightarrow>
        is_opponent b (color p) tc tr)"
proof -
  from find_moves_members [OF assms] obtain ms where ms: "find_moves b p = Inr ms"
    and mem: "\<forall>m \<in> set ms. \<exists>m' tc tr. (m = m' \<or> m = ''Promote on '' @ m') \<and>
              ray_move b (color p) m' tc tr" by blast
  have "is_opponent b (color p) tc tr"
    if "m \<in> set ms" "str_in ''Capture'' m" "targets m tc tr" for m tc tr
  proof -
    from mem that(1) obtain m' tc' tr' where m: "m = m' \<or> m = ''Promote on '' @ m'"
      and r: "ray_move b (color p) m' tc' tr'" by blast
    from r m that(2,3) show ?thesis by (rule capture_move_target)
  qed
  with ms show ?thesis by blast
qed

theorem captures_only_opponents_witness:
  "valid_board rook_board \<and> valid_mover rook_a8 \<and>
   find_moves rook_board rook_a8 =
     Inr [''b8'', ''c8'', ''d8'', ''e8'', ''f8'', ''g8'', ''h8'',
          ''a7'', ''a6'', ''a5'', ''a4'', ''a3 (Capture Pawn)''] \<and>
   str_in ''Capture'' ''a3 (Capture Pawn)'' \<and> targets ''a3 (Capture Pawn)'' 0 5 \<and>
   is_opponent rook_board (color rook_a8) 0 5"
proof -
  have b: "valid_board rook_board"
    by (simp add: valid_board_def rook_board_def empty_row_def valid_token_def)
  have p: "valid_mover rook_a8"
    by (simp add: valid_mover_def rook_a8_def in_range8_def)
  have ms: "find_moves rook_board rook_a8 =
     Inr [''b8'', ''c8'', ''d8'', ''e8'', ''f8'', ''g8'', ''h8'',
          ''a7'', ''a6'', ''a5'', ''a4'', ''a3 (Capture Pawn)'']"
    by code_simp
  have t: "str_in ''Capture'' ''a3 (Capture Pawn)''" "targets ''a3 (Capture Pawn)'' 0 5"
    by code_simp+
  from captures_only_opponents [OF b p] ms t
  have "is_opponent rook_board (color rook_a8) 0 5" by auto
  with b p ms t show ?thesis by blast
qed

text \<open>
  C9. For a validated board and a colour letter \<open>''w''\<close> or \<open>''b''\<close>, \<open>find_pieces\<close>
  raises nothing and returns one piece for each square whose occupant has that colour
  and for no other square, in scan order: the rows from 7 down to 0 for Black and from 0
  up to 7 for White, the columns from 0 to 7 within each row. Each returned piece
  carries the colour and the name of its occupant and the moves \<open>find_moves\<close> gives it.
\<close>

theorem find_pieces_scan:
  assumes "valid_board b" and "clr = ''w'' \<or> clr = ''b''"
  shows "\<exists>ps. find_pieces b clr = Inr ps \<and>
     map (\<lambda>p. (column p, row p)) ps =
       [(c, r). r \<leftarrow> (if clr = ''b'' then rev [0..7] else [0..7]), c \<leftarrow> [0..7],
                owned b clr c r] \<and>
     (\<forall>p \<in> set ps. collected b clr p)"
proof -
  have "\<forall>r \<in> set (if clr = ''b'' then rev [0..7] else [0..7]). in_range8 r"
    by (simp add: in_range8_def)
  from find_pieces_rows_scan [OF assms this, of "[]"] show ?thesis
    by (simp add: find_pieces_def del: upto.simps)
qed

theorem find_pieces_scan_witness:
  "valid_board sample_board \<and>
   (\<exists>ps. find_pieces sample_board ''b'' = Inr ps \<and>
      map (\<lambda>p. (column p, row p)) ps =
        [(0, 1), (1, 1), (2, 1), (3, 1), (4, 1), (5, 1), (6, 1),
         (0, 0), (1, 0), (2, 0), (3, 0), (4, 0), (5, 0), (6, 0), (7, 0)])"
proof -
  have b: "valid_board sample_board"
    by (simp add: valid_board_def sample_board_def valid_token_def)
  have scan: "[(c, r). r \<leftarrow> (if ''b'' = ''b'' then rev [0..7] else [0..7]), c \<leftarrow> [0..7],
                owned sample_board ''b'' c r] =
        [(0, 1), (1, 1), (2, 1), (3, 1), (4, 1), (5, 1), (6, 1),
         (0, 0), (1, 0), (2, 0), (3, 0), (4, 0), (5, 0), (6, 0), (7, 0)]"
    by code_simp
  have c: "''b'' = ''w'' \<or> ''b'' = ''b''" by simp
  from find_pieces_scan [OF b c] obtain ps
    where 1: "find_pieces sample_board ''b'' = Inr ps"
      and 2: "map (\<lambda>p. (column p, row p)) ps =
        [(c, r). r \<leftarrow> (if ''b'' = ''b'' then rev [0..7] else [0..7]), c \<leftarrow> [0..7],
                owned sample_board ''b'' c r]"
    by (elim exE conjE)
  from 2 have 3: "map (\<lambda>p. (column p, row p)) ps =
        [(0, 1), (1, 1), (2, 1), (3, 1), (4, 1), (5, 1), (6, 1),
         (0, 0), (1, 0), (2, 0), (3, 0), (4, 0), (5, 0), (6, 0), (7, 0)]"
    by (simp only: scan)
  from b 1 3 show ?thesis by (intro conjI exI)
qed

text \<open>
  C10. The loop of \<open>walk\<close> terminates for every input, whatever the sign of
  \<open>max_distance\<close>: every argument tuple is in the domain of termination of the loop,
  and each iteration that goes round again (the call relation of the loop) had a budget
  above 0, lowers it by 1 and continues from a square on the board.
\<close>

theorem walk_loop_terminates:
  "walk_loop_dom (b, clr, column_step, row_step, c, r, max_distance, mvs, stop) \<and>
   (walk_loop_rel (b', clr', column_step', row_step', c', r', max_distance', mvs', stop')
        (b, clr, column_step, row_step, c, r, max_distance, mvs, stop) \<longrightarrow>
      0 < max_distance \<and> max_distance' = max_distance - 1 \<and>
      in_range8 c' \<and> in_range8 r')"
  using walk_loop_dom_all [of b clr column_step row_step c r max_distance mvs stop]
    walk_loop_rel_step [of "(b', clr', column_step', row_step', c', r', max_distance', mvs', stop')"
      b clr column_step row_step c r max_distance mvs stop]
  by auto

theorem walk_loop_terminates_witness:
  "walk_loop_dom (rook_board, ''white'', 0, 1, 0, 0, 7, [], False) \<and>
   walk_loop_rel (rook_board, ''white'', 0, 1, 0, 1, 6, [''a7''], False)
     (rook_board, ''white'', 0, 1, 0, 0, 7, [], False) \<and>
   (0::int) < 7 \<and> (6::int) = 7 - 1 \<and> in_range8 0 \<and> in_range8 1"
proof -
  have sc: "space_check rook_board [] ''white'' (0 + 0) (0 + 1) = Inr ([''a7''], False)"
    by code_simp
  have g: "in_range8 0 \<and> in_range8 0 \<and> (0::int) < 7"
    "\<not> (\<not> in_range8 (0 + 0) \<or> \<not> in_range8 (0 + 1) \<or> False)"
    by (simp_all add: in_range8_def)
  have rel: "walk_loop_rel (rook_board, ''white'', 0, 1, 0 + 0, 0 + 1, 7 + - 1, [''a7''], False)
     (rook_board, ''white'', 0, 1, 0, 0, 7, [], False)"
    by (rule walk_loop_rel.intros [OF g sc]) simp
  then have rel': "walk_loop_rel (rook_board, ''white'', 0, 1, 0, 1, 6, [''a7''], False)
     (rook_board, ''white'', 0, 1, 0, 0, 7, [], False)"
    by simp
  from walk_loop_terminates [of rook_board "''white''" 0 1 0 0 7 "[]" False
      rook_board "''white''" 0 1 0 1 6 "[''a7'']" False] rel'
  show ?thesis by simp
qed

end
